theory Spec2Isabelle
  imports Complex_Main "HOL-Library.Sublist"
begin

section \<open>The worker: \<open>make_request\<close> (PoC.py, lines 79 to 98)\<close>

text \<open>
  A Python \<open>str\<close> is a sequence of code points, and slicing counts code points, so a
  string is a list of code points here. \<open>subprocess.run(..., capture_output=True,
  text=True)\<close> returns a \<open>CompletedProcess\<close> with the three fields the worker reads.
\<close>

type_synonym str = "nat list"

record completed_process =
  returncode :: int
  stdout :: str
  stderr :: str

text \<open>
  The worker reports through \<open>print\<close> only. Each \<open>print\<close> call of \<open>make_request\<close> is one
  constructor, in the order of the source (lines 81, 92, 94, 96, 98); the fixed text of
  the message is the constructor, the interpolated values are its arguments. The spec's
  outcomes are the last four: Success, MalformedResponse, TransportFailure, RuntimeFault.
\<close>

datatype report =
    Starting_request int
  | Success_partial_json int str
  | Invalid_json_response int str
  | Curl_error int str
  | Exception_caught int str

text \<open>
  A computation of the worker: the lines it has printed, and either the exception that
  left it (\<open>Inl\<close>, the exception by its \<open>str(e)\<close>) or its value. Every exception that
  can be raised in a worker thread is an \<open>Exception\<close>: \<open>KeyboardInterrupt\<close> is
  delivered to the main thread only and nothing the worker calls exits the interpreter.
  \<open>print\<close> itself is taken not to fail.
\<close>

type_synonym 'a comp = "report list \<times> (str + 'a)"

definition print_line :: "report \<Rightarrow> unit comp" where
  "print_line r = ([r], Inr ())"

definition bind_comp :: "'a comp \<Rightarrow> ('a \<Rightarrow> 'b comp) \<Rightarrow> 'b comp" where
  "bind_comp m f =
     (case m of
        (out, Inl e) \<Rightarrow> (out, Inl e)
      | (out, Inr x) \<Rightarrow> (case f x of (out', r) \<Rightarrow> (out @ out', r)))"

text \<open>\<open>try: body except Exception as e: handler(e)\<close>\<close>

definition try_except :: "'a comp \<Rightarrow> (str \<Rightarrow> 'a comp) \<Rightarrow> 'a comp" where
  "try_except body handler =
     (case body of
        (out, Inl e) \<Rightarrow> (case handler e of (out', r) \<Rightarrow> (out @ out', r))
      | (out, Inr x) \<Rightarrow> (out, Inr x))"

text \<open>
  What the world outside the program does is a parameter:
  \<^item> \<open>run\<close> is what \<open>subprocess.run(curl_command, ...)\<close> does in this execution: it raises
    (curl cannot be executed; \<open>Inl\<close>) or returns the completed process;
  \<^item> \<open>loads\<close> is \<open>json.loads\<close> by its contract: the decoded value, or \<open>None\<close> for
    \<open>json.JSONDecodeError\<close>, the one failure it documents for a \<open>str\<close> argument;
  \<^item> \<open>dumps\<close> is \<open>\<lambda>data. json.dumps(data, indent=2)\<close>, total on decoded values.
  Running out of memory or of stack is left out here as for every other call.
\<close>

definition subprocess_run :: "str + completed_process \<Rightarrow> completed_process comp" where
  "subprocess_run run = ([], run)"

definition make_request ::
  "(str + completed_process) \<Rightarrow> (str \<Rightarrow> 'j option) \<Rightarrow> ('j \<Rightarrow> str) \<Rightarrow> int \<Rightarrow> unit comp" where
  "make_request run loads dumps thread_id =
     try_except
       (bind_comp (print_line (Starting_request thread_id)) (\<lambda>_.
        bind_comp (subprocess_run run) (\<lambda>result.
          if returncode result = 0 then
            (case loads (stdout result) of
               Some data \<Rightarrow>
                 print_line (Success_partial_json thread_id (take 400 (dumps data)))
             | None \<Rightarrow>
                 print_line (Invalid_json_response thread_id (take 300 (stdout result))))
          else
            print_line (Curl_error thread_id (stderr result)))))
       (\<lambda>e. print_line (Exception_caught thread_id e))"

text \<open>The outcome lines among what a worker printed, and the worker a line is about.\<close>

fun is_outcome :: "report \<Rightarrow> bool" where
  "is_outcome (Starting_request _) = False"
| "is_outcome _ = True"

fun report_thread :: "report \<Rightarrow> int" where
  "report_thread (Starting_request i) = i"
| "report_thread (Success_partial_json i _) = i"
| "report_thread (Invalid_json_response i _) = i"
| "report_thread (Curl_error i _) = i"
| "report_thread (Exception_caught i _) = i"

definition outcomes :: "report list \<Rightarrow> report list" where
  "outcomes out = filter is_outcome out"



section \<open>The main thread (PoC.py, lines 69 to 122)\<close>

text \<open>
  The command line (lines 10 to 16). \<open>--threads\<close> and \<open>--batch-size\<close> are parsed by
  \<open>int\<close>, so they may be zero or negative; the two delays are parsed by \<open>float\<close> and
  are only printed, compared with zero by \<open>time.sleep\<close> and slept, never computed with,
  so a real number stands for each (NaN and the infinities are left out).
\<close>

record args =
  threads :: int
  delay :: real
  batch_delay :: real
  batch_size :: int

text \<open>
  What the main thread does, one constructor per effect and call site. \<open>Write_payload\<close>
  is lines 70 to 76 (the temporary file is created, the request document is serialised
  into it by the one \<open>json.dump\<close>, the file is closed); the two sleeps of the loop
  (lines 110 and 113) are kept apart. Lines 18 to 34 only print (the size estimate
  serialises a separate dummy document that is neither stored nor sent) and lines 123
  and 124 wait for the operator; both are left out.
\<close>

datatype event =
    Write_payload str
  | Print_payload_written
  | Print_creating_thread int
  | Thread_start int
  | Print_batch_limit real
  | Batch_sleep real
  | Print_sleeping real
  | Launch_sleep real
  | Thread_join int
  | Os_remove
  | Print_removed
  | Print_all_completed

datatype py_error = ZeroDivisionError | ValueError

text \<open>
  The state of the main thread: what it did so far and the list \<open>threads\<close> of line 101.
  A command returns the state it reached and the exception that stopped it, if any: no
  statement of the script is inside a \<open>try\<close>, so an exception ends the main thread.
\<close>

record main_state =
  events :: "event list"
  threads_list :: "int list"

type_synonym command = "main_state \<Rightarrow> main_state \<times> py_error option"

definition emit :: "event \<Rightarrow> command" where
  "emit e s = (s\<lparr>events := events s @ [e]\<rparr>, None)"

definition raise_error :: "py_error \<Rightarrow> command" where
  "raise_error err s = (s, Some err)"

text \<open>Statements in sequence: the first exception skips the rest.\<close>

fun seq :: "command list \<Rightarrow> command" where
  "seq [] s = (s, None)"
| "seq (c # cs) s =
     (case c s of
        (s', None) \<Rightarrow> seq cs s'
      | (s', Some err) \<Rightarrow> (s', Some err))"

text \<open>\<open>time.sleep(secs)\<close> raises \<open>ValueError\<close> for a negative length.\<close>

definition time_sleep :: "(real \<Rightarrow> event) \<Rightarrow> real \<Rightarrow> command" where
  "time_sleep site secs = (if secs < 0 then raise_error ValueError else emit (site secs))"

text \<open>Lines 104 to 106: the thread is created, started and appended to \<open>threads\<close>.\<close>

definition thread_start :: "int \<Rightarrow> command" where
  "thread_start i s =
     (s\<lparr>events := events s @ [Thread_start i], threads_list := threads_list s @ [i]\<rparr>, None)"

text \<open>
  Lines 108 to 110. Python's \<open>%\<close> raises \<open>ZeroDivisionError\<close> for a zero divisor and
  otherwise takes the sign of the divisor, as \<open>mod\<close> on \<open>int\<close> does.
\<close>

definition batch_check :: "args \<Rightarrow> int \<Rightarrow> command" where
  "batch_check a i =
     (if batch_size a = 0 then raise_error ZeroDivisionError
      else if (i + 1) mod batch_size a = 0 then
        seq [emit (Print_batch_limit (batch_delay a)), time_sleep Batch_sleep (batch_delay a)]
      else seq [])"

text \<open>The body of the loop of line 102, and the loop over \<open>range(args.threads)\<close>.\<close>

definition iteration :: "args \<Rightarrow> int \<Rightarrow> command" where
  "iteration a i =
     seq [emit (Print_creating_thread i),
          thread_start i,
          batch_check a i,
          emit (Print_sleeping (delay a)),
          time_sleep Launch_sleep (delay a)]"

definition threading_logic :: "args \<Rightarrow> command" where
  "threading_logic a = seq (map (iteration a) [0..threads a - 1])"

text \<open>Lines 116 and 117: every thread of the list is joined, in order.\<close>

definition join_all :: command where
  "join_all s = seq (map (\<lambda>i. emit (Thread_join i)) (threads_list s)) s"

definition main_start :: main_state where
  "main_start = \<lparr>events = [], threads_list = []\<rparr>"

definition main_program :: "args \<Rightarrow> str \<Rightarrow> main_state \<times> py_error option" where
  "main_program a payload =
     seq [emit (Write_payload payload),
          emit Print_payload_written,
          threading_logic a,
          join_all,
          emit Os_remove,
          emit Print_removed,
          emit Print_all_completed] main_start"

text \<open>The launches and the pauses among the events, without the printing.\<close>

fun is_pacing :: "event \<Rightarrow> bool" where
  "is_pacing (Thread_start _) = True"
| "is_pacing (Batch_sleep _) = True"
| "is_pacing (Launch_sleep _) = True"
| "is_pacing _ = False"

definition pacing :: "event list \<Rightarrow> event list" where
  "pacing evs = filter is_pacing evs"

fun is_batch_sleep :: "event \<Rightarrow> bool" where
  "is_batch_sleep (Batch_sleep _) = True"
| "is_batch_sleep _ = False"

fun is_launch_sleep :: "event \<Rightarrow> bool" where
  "is_launch_sleep (Launch_sleep _) = True"
| "is_launch_sleep _ = False"

fun is_write :: "event \<Rightarrow> bool" where
  "is_write (Write_payload _) = True"
| "is_write _ = False"




section \<open>The threads together\<close>

text \<open>
  The main thread and the workers run interleaved. The main thread goes through the
  events of \<open>main_program\<close> one at a time: its control flow depends on no worker, only
  \<open>t.join()\<close> waits until that worker has finished. A worker is \<open>Running\<close> from
  \<open>t.start()\<close> on and does its whole \<open>make_request\<close> in one step: it writes nothing
  another thread reads, and the one thing it reads that another thread writes is the
  payload file, which curl opens once (\<open>-d@file\<close>), so the interleaving decides nothing
  but the moment of that read. \<open>curl\<close> says what \<open>subprocess.run\<close> does for a worker, given
  what is at the payload's path at that moment (\<open>None\<close>: no such file); it returns or
  raises. The command sets no timeout, so a curl that never exits would keep its worker
  \<open>Running\<close> and the main thread at its join for ever; such a transport is not a value
  of \<open>curl\<close>. A join is only ever reached for a thread that was started.
\<close>

datatype phase = Running | Finished

record system =
  main_todo :: "event list"
  main_done :: "event list"
  worker :: "int \<Rightarrow> phase option"
  payload_file :: "str option"
  console :: "report list"
  curl_reads :: "(int \<times> str option) list"

datatype choice = Main_thread | Worker_thread int

fun main_effect :: "event \<Rightarrow> system \<Rightarrow> system" where
  "main_effect (Write_payload p) s = s\<lparr>payload_file := Some p\<rparr>"
| "main_effect (Thread_start i) s = s\<lparr>worker := (worker s)(i := Some Running)\<rparr>"
| "main_effect Os_remove s = s\<lparr>payload_file := None\<rparr>"
| "main_effect _ s = s"

fun blocked :: "event \<Rightarrow> system \<Rightarrow> bool" where
  "blocked (Thread_join i) s = (worker s i \<noteq> Some Finished)"
| "blocked _ s = False"

definition step ::
  "(int \<Rightarrow> str option \<Rightarrow> str + completed_process) \<Rightarrow> (str \<Rightarrow> 'j option) \<Rightarrow> ('j \<Rightarrow> str) \<Rightarrow>
   choice \<Rightarrow> system \<Rightarrow> system option" where
  "step curl loads dumps c s =
     (case c of
        Main_thread \<Rightarrow>
          (case main_todo s of
             [] \<Rightarrow> None
           | e # rest \<Rightarrow>
               if blocked e s then None
               else Some (main_effect e (s\<lparr>main_todo := rest, main_done := main_done s @ [e]\<rparr>)))
      | Worker_thread i \<Rightarrow>
          (case worker s i of
             Some Running \<Rightarrow>
               Some (s\<lparr>worker := (worker s)(i := Some Finished),
                       console := console s @
                         fst (make_request (curl i (payload_file s)) loads dumps i),
                       curl_reads := curl_reads s @ [(i, payload_file s)]\<rparr>)
           | _ \<Rightarrow> None))"

text \<open>A run under a scheduler: \<open>None\<close> when the chosen thread cannot move.\<close>

fun run_schedule ::
  "(int \<Rightarrow> str option \<Rightarrow> str + completed_process) \<Rightarrow> (str \<Rightarrow> 'j option) \<Rightarrow> ('j \<Rightarrow> str) \<Rightarrow>
   choice list \<Rightarrow> system \<Rightarrow> system option" where
  "run_schedule curl loads dumps [] s = Some s"
| "run_schedule curl loads dumps (c # cs) s =
     (case step curl loads dumps c s of
        None \<Rightarrow> None
      | Some s' \<Rightarrow> run_schedule curl loads dumps cs s')"

definition initial :: "args \<Rightarrow> str \<Rightarrow> system" where
  "initial a payload =
     \<lparr>main_todo = events (fst (main_program a payload)), main_done = [],
      worker = (\<lambda>_. None), payload_file = None, console = [], curl_reads = []\<rparr>"

section \<open>The shape of the main thread's program\<close>

text \<open>
  What the proofs about the threads together need of the events of \<open>main_program\<close>: the
  threads an event list starts, the events the loop can emit, the events after the loop
  when nothing was raised, and the order of all of them.
\<close>

fun started :: "event \<Rightarrow> int list" where
  "started (Thread_start i) = [i]"
| "started _ = []"

definition starts :: "event list \<Rightarrow> int list" where
  "starts evs = concat (map started evs)"

fun is_loop_event :: "event \<Rightarrow> bool" where
  "is_loop_event (Print_creating_thread _) = True"
| "is_loop_event (Thread_start _) = True"
| "is_loop_event (Print_batch_limit _) = True"
| "is_loop_event (Batch_sleep _) = True"
| "is_loop_event (Print_sleeping _) = True"
| "is_loop_event (Launch_sleep _) = True"
| "is_loop_event _ = False"

definition closing :: "int list \<Rightarrow> event list" where
  "closing ths = map Thread_join ths @ [Os_remove, Print_removed, Print_all_completed]"

definition program_shape :: "str \<Rightarrow> event list \<Rightarrow> bool" where
  "program_shape p P \<longleftrightarrow>
     (\<exists>new tail. P = Write_payload p # Print_payload_written # new @ tail \<and>
        list_all is_loop_event new \<and> distinct (starts new) \<and>
        (tail = [] \<or> tail = closing (starts new)))"



text \<open>
  What every step of the threads keeps true, for the payload \<open>p\<close> and the program \<open>P\<close>
  of the main thread: the main thread is somewhere in \<open>P\<close>; the payload file holds \<open>p\<close>
  from the write until the removal; a worker exists once it was started and has
  finished once it was joined; every curl found \<open>p\<close> at the payload's path; and the
  outcome lines on the console are one for each finished worker, printed by the
  workers in the order in which their curl read the payload.
\<close>

definition invariant :: "str \<Rightarrow> event list \<Rightarrow> system \<Rightarrow> bool" where
  "invariant p P s \<longleftrightarrow>
     main_done s @ main_todo s = P \<and>
     payload_file s =
       (if main_done s \<noteq> [] \<and> Os_remove \<notin> set (main_done s) then Some p else None) \<and>
     (\<forall>i. worker s i = None \<longleftrightarrow> Thread_start i \<notin> set (main_done s)) \<and>
     (\<forall>i. Thread_join i \<in> set (main_done s) \<longrightarrow> worker s i = Some Finished) \<and>
     (\<forall>r \<in> set (curl_reads s). snd r = Some p) \<and>
     distinct (map report_thread (outcomes (console s))) \<and>
     set (map report_thread (outcomes (console s))) = {i. worker s i = Some Finished} \<and>
     map fst (curl_reads s) = map report_thread (outcomes (console s))"

section \<open>The worker's outcome\<close>

lemma make_request_raises:
  "make_request (Inl e) loads dumps i =
     ([Starting_request i, Exception_caught i e], Inr ())"
  by (simp add: make_request_def try_except_def bind_comp_def print_line_def
      subprocess_run_def)

lemma make_request_returns:
  "make_request (Inr r) loads dumps i =
     ([Starting_request i,
       if returncode r = 0 then
         (case loads (stdout r) of
            Some data \<Rightarrow> Success_partial_json i (take 400 (dumps data))
          | None \<Rightarrow> Invalid_json_response i (take 300 (stdout r)))
       else Curl_error i (stderr r)], Inr ())"
  by (simp add: make_request_def try_except_def bind_comp_def print_line_def
      subprocess_run_def split: option.split)

lemma make_request_one_outcome:
  "\<exists>x. outcomes (fst (make_request run loads dumps i)) = [x] \<and> report_thread x = i"
proof (cases run)
  case (Inl e)
  then show ?thesis by (simp add: make_request_raises outcomes_def)
next
  case (Inr r)
  then show ?thesis
    by (simp add: make_request_returns outcomes_def split: option.split)
qed


text \<open>
  C8. With a return code of zero, the line the worker prints carries a prefix of at
  most 400 characters of the re-serialised document when the body decodes, and a prefix
  of at most 300 characters of the raw body when it does not, whatever the length of
  the body. (The stderr of a failed transfer and the text of a caught exception are
  printed whole; the claim is about the two decoding cases.)
\<close>

theorem preview_bounded:
  "(returncode r = 0 \<and> loads (stdout r) = Some data \<longrightarrow>
      outcomes (fst (make_request (Inr r) loads dumps i)) =
        [Success_partial_json i (take 400 (dumps data))] \<and>
      length (take 400 (dumps data)) \<le> 400 \<and>
      prefix (take 400 (dumps data)) (dumps data)) \<and>
   (returncode r = 0 \<and> loads (stdout r) = None \<longrightarrow>
      outcomes (fst (make_request (Inr r) loads dumps i)) =
        [Invalid_json_response i (take 300 (stdout r))] \<and>
      length (take 300 (stdout r)) \<le> 300 \<and>
      prefix (take 300 (stdout r)) (stdout r))"
  by (simp add: make_request_returns outcomes_def take_is_prefix)

theorem preview_bounded_witness:
  "outcomes (fst (make_request
      (Inr \<lparr>returncode = 0, stdout = replicate 1000 120, stderr = []\<rparr>)
      (\<lambda>body. Some body) (\<lambda>data. data @ data) 7)) =
     [Success_partial_json 7 (replicate 400 120)] \<and>
   outcomes (fst (make_request
      (Inr \<lparr>returncode = 0, stdout = replicate 1000 120, stderr = []\<rparr>)
      (\<lambda>body. None) (\<lambda>data :: str. data) 7)) =
     [Invalid_json_response 7 (replicate 300 120)]"
proof -
  let ?r = "\<lparr>returncode = 0, stdout = replicate 1000 (120 :: nat), stderr = []\<rparr>"
  have a: "returncode ?r = 0 \<and> (\<lambda>body. Some body) (stdout ?r) = Some (replicate 1000 120)"
    by simp
  have b: "returncode ?r = 0 \<and> (\<lambda>body. None :: str option) (stdout ?r) = None"
    by simp
  from a have "outcomes (fst (make_request (Inr ?r) (\<lambda>body. Some body) (\<lambda>data. data @ data) 7)) =
      [Success_partial_json 7 (take 400 ((\<lambda>data. data @ data) (replicate 1000 120)))]"
    using preview_bounded [of ?r "\<lambda>body. Some body" "replicate 1000 120" "\<lambda>data. data @ data" 7]
    by blast
  moreover from b have "outcomes (fst (make_request (Inr ?r) (\<lambda>body. None) (\<lambda>data :: str. data) 7)) =
      [Invalid_json_response 7 (take 300 (stdout ?r))]"
    using preview_bounded [of ?r "\<lambda>body. None :: str option" _ "\<lambda>data. data" 7]
    by blast
  ultimately show ?thesis by simp
qed



section \<open>The launch loop\<close>



lemma join_all_events:
  "seq (map (\<lambda>i. emit (Thread_join i)) js) s =
     (s\<lparr>events := events s @ map Thread_join js\<rparr>, None)"
  by (induction js arbitrary: s) (simp_all add: emit_def)




lemma iteration_zero_batch:
  "batch_size a = 0 \<Longrightarrow> iteration a i s =
     (s\<lparr>events := events s @ [Print_creating_thread i, Thread_start i],
        threads_list := threads_list s @ [i]\<rparr>, Some ZeroDivisionError)"
  by (simp add: iteration_def emit_def thread_start_def batch_check_def raise_error_def)



text \<open>
  C7. With 10 threads, batches of 3, an inter-launch delay of 1 and a batch delay of 5,
  the loop raises nothing and pauses for the batch delay right after the launches 2, 5
  and 8 and nowhere else: three batch pauses and ten inter-launch pauses.
\<close>

theorem ten_threads_batches_of_three:
  "snd (threading_logic \<lparr>threads = 10, delay = 1, batch_delay = 5, batch_size = 3\<rparr>
      main_start) = None \<and>
   pacing (events (fst (threading_logic
       \<lparr>threads = 10, delay = 1, batch_delay = 5, batch_size = 3\<rparr> main_start))) =
     [Thread_start 0, Launch_sleep 1, Thread_start 1, Launch_sleep 1,
      Thread_start 2, Batch_sleep 5, Launch_sleep 1,
      Thread_start 3, Launch_sleep 1, Thread_start 4, Launch_sleep 1,
      Thread_start 5, Batch_sleep 5, Launch_sleep 1,
      Thread_start 6, Launch_sleep 1, Thread_start 7, Launch_sleep 1,
      Thread_start 8, Batch_sleep 5, Launch_sleep 1,
      Thread_start 9, Launch_sleep 1] \<and>
   length (filter is_batch_sleep (events (fst (threading_logic
       \<lparr>threads = 10, delay = 1, batch_delay = 5, batch_size = 3\<rparr> main_start)))) = 3 \<and>
   length (filter is_launch_sleep (events (fst (threading_logic
       \<lparr>threads = 10, delay = 1, batch_delay = 5, batch_size = 3\<rparr> main_start)))) = 10"
  by (simp add: threading_logic_def iteration_def emit_def thread_start_def batch_check_def
      time_sleep_def raise_error_def main_start_def pacing_def upto_rec1)

text \<open>
  C9. Nothing checks the batch size. With \<open>batch_size = 0\<close> and at least one thread,
  the script writes the payload, starts thread 0 and stops there with
  \<open>ZeroDivisionError\<close>, which nothing catches: it has not slept, joined no thread and
  not removed the file.
\<close>

theorem zero_batch_size_crashes:
  assumes "batch_size a = 0" and "1 \<le> threads a"
  shows "main_program a p =
     (\<lparr>events = [Write_payload p, Print_payload_written,
                  Print_creating_thread 0, Thread_start 0],
       threads_list = [0]\<rparr>, Some ZeroDivisionError)"
proof -
  from assms(2) have "[0..threads a - 1] = 0 # [1..threads a - 1]"
    by (simp add: upto_rec1)
  with assms(1) show ?thesis
    by (simp add: main_program_def threading_logic_def iteration_zero_batch emit_def
        main_start_def)
qed

theorem zero_batch_size_crashes_witness:
  "batch_size \<lparr>threads = 3, delay = 1, batch_delay = 5, batch_size = 0\<rparr> = 0 \<and>
   1 \<le> threads \<lparr>threads = 3, delay = 1, batch_delay = 5, batch_size = 0\<rparr> \<and>
   main_program \<lparr>threads = 3, delay = 1, batch_delay = 5, batch_size = 0\<rparr> [7, 8, 9] =
     (\<lparr>events = [Write_payload [7, 8, 9], Print_payload_written,
                  Print_creating_thread 0, Thread_start 0],
       threads_list = [0]\<rparr>, Some ZeroDivisionError)"
proof -
  let ?a = "\<lparr>threads = 3, delay = 1, batch_delay = 5, batch_size = 0\<rparr>"
  have zero: "batch_size ?a = 0" and some: "1 \<le> threads ?a" by simp_all
  from zero_batch_size_crashes [OF zero some, of "[7, 8, 9]"] zero some
  show ?thesis by blast
qed



section \<open>The program of the main thread, whatever the arguments\<close>

lemma starts_append: "starts (xs @ ys) = starts xs @ starts ys"
  by (simp add: starts_def)

lemma starts_mem: "i \<in> set (starts evs) \<longleftrightarrow> Thread_start i \<in> set evs"
proof (induction evs)
  case Nil
  show ?case by (simp add: starts_def)
next
  case (Cons e evs)
  then show ?case by (cases e) (auto simp: starts_def)
qed

lemma iteration_shape:
  "\<exists>new err. iteration a i s =
       (s\<lparr>events := events s @ new, threads_list := threads_list s @ [i]\<rparr>, err) \<and>
     starts new = [i] \<and> list_all is_loop_event new"
proof -
  let ?r = "iteration a i main_start"
  have "iteration a i s =
       (s\<lparr>events := events s @ events (fst ?r), threads_list := threads_list s @ [i]\<rparr>, snd ?r)"
    by (simp add: iteration_def emit_def thread_start_def batch_check_def time_sleep_def
        raise_error_def main_start_def)
  moreover have "starts (events (fst ?r)) = [i]"
    by (simp add: iteration_def emit_def thread_start_def batch_check_def time_sleep_def
        raise_error_def main_start_def starts_def)
  moreover have "list_all is_loop_event (events (fst ?r))"
    by (simp add: iteration_def emit_def thread_start_def batch_check_def time_sleep_def
        raise_error_def main_start_def)
  ultimately show ?thesis by blast
qed

lemma loop_shape:
  "\<exists>new k err. seq (map (iteration a) is) s =
       (s\<lparr>events := events s @ new, threads_list := threads_list s @ take k is\<rparr>, err) \<and>
     starts new = take k is \<and> list_all is_loop_event new \<and> (err = None \<longrightarrow> take k is = is)"
proof (induction "is" arbitrary: s)
  case Nil
  have "seq (map (iteration a) []) s =
       (s\<lparr>events := events s @ [], threads_list := threads_list s @ take 0 []\<rparr>, None) \<and>
     starts [] = take 0 [] \<and> list_all is_loop_event [] \<and> take 0 [] = ([] :: int list)"
    by (simp add: starts_def)
  then show ?case by blast
next
  case (Cons i "is")
  obtain n1 e1 where it: "iteration a i s =
       (s\<lparr>events := events s @ n1, threads_list := threads_list s @ [i]\<rparr>, e1)"
     and n1: "starts n1 = [i]" "list_all is_loop_event n1"
    using iteration_shape [of a i s] by blast
  let ?s1 = "s\<lparr>events := events s @ n1, threads_list := threads_list s @ [i]\<rparr>"
  show ?case
  proof (cases e1)
    case (Some err)
    with it n1 have "seq (map (iteration a) (i # is)) s =
         (s\<lparr>events := events s @ n1, threads_list := threads_list s @ take 1 (i # is)\<rparr>, Some err) \<and>
       starts n1 = take 1 (i # is) \<and> list_all is_loop_event n1"
      by simp
    then show ?thesis by blast
  next
    case None
    from Cons.IH [of ?s1] obtain n2 k e2 where
      rest: "seq (map (iteration a) is) ?s1 =
         (?s1\<lparr>events := events ?s1 @ n2, threads_list := threads_list ?s1 @ take k is\<rparr>, e2)"
      and n2: "starts n2 = take k is" "list_all is_loop_event n2" "e2 = None \<longrightarrow> take k is = is"
      by blast
    from it None rest n1 n2 have "seq (map (iteration a) (i # is)) s =
         (s\<lparr>events := events s @ (n1 @ n2), threads_list := threads_list s @ take (Suc k) (i # is)\<rparr>, e2) \<and>
       starts (n1 @ n2) = take (Suc k) (i # is) \<and> list_all is_loop_event (n1 @ n2) \<and>
       (e2 = None \<longrightarrow> take (Suc k) (i # is) = i # is)"
      by (simp add: starts_append)
    then show ?thesis by blast
  qed
qed

lemma main_program_cases:
  "\<exists>new ths. list_all is_loop_event new \<and> starts new = ths \<and> distinct ths \<and>
     (events (fst (main_program a p)) = Write_payload p # Print_payload_written # new \<and>
        snd (main_program a p) \<noteq> None \<or>
      events (fst (main_program a p)) =
        Write_payload p # Print_payload_written # new @ closing ths \<and>
        snd (main_program a p) = None \<and> ths = [0..threads a - 1])"
proof -
  let ?s0 = "\<lparr>events = [Write_payload p, Print_payload_written], threads_list = []\<rparr>"
  let ?all = "[0..threads a - 1]"
  obtain new k err where
    loop: "threading_logic a ?s0 =
       (?s0\<lparr>events := events ?s0 @ new, threads_list := threads_list ?s0 @ take k ?all\<rparr>, err)"
    and new: "starts new = take k ?all" "list_all is_loop_event new"
      "err = None \<longrightarrow> take k ?all = ?all"
    unfolding threading_logic_def using loop_shape [of a ?all ?s0] by blast
  have d: "distinct (take k ?all)" by simp
  show ?thesis
  proof (cases err)
    case None
    with loop new have "main_program a p =
        (\<lparr>events = Write_payload p # Print_payload_written # new @ closing (take k ?all),
          threads_list = take k ?all\<rparr>, None)"
      by (simp add: main_program_def main_start_def emit_def join_all_def join_all_events
          closing_def)
    with new d None show ?thesis by (intro exI [of _ new] exI [of _ "take k ?all"]) simp
  next
    case (Some e)
    with loop have "main_program a p =
        (\<lparr>events = Write_payload p # Print_payload_written # new,
          threads_list = take k ?all\<rparr>, Some e)"
      by (simp add: main_program_def main_start_def emit_def)
    with new d show ?thesis by (intro exI [of _ new] exI [of _ "take k ?all"]) simp
  qed
qed

lemma program_has_shape: "program_shape p (events (fst (main_program a p)))"
proof -
  from main_program_cases [of a p] obtain new where
    "list_all is_loop_event new" "distinct (starts new)"
    "events (fst (main_program a p)) = Write_payload p # Print_payload_written # new @ [] \<or>
     events (fst (main_program a p)) = Write_payload p # Print_payload_written # new @ closing (starts new)"
    by auto
  then show ?thesis unfolding program_shape_def by blast
qed

lemma normal_completion_events:
  assumes "snd (main_program a p) = None"
  shows "\<exists>new. list_all is_loop_event new \<and> starts new = [0..threads a - 1] \<and>
     events (fst (main_program a p)) =
       Write_payload p # Print_payload_written # new @ closing [0..threads a - 1]"
  using main_program_cases [of a p] assms by auto

lemma split_before:
  assumes "xs @ ys = d @ e # r" and "e \<notin> set ys"
  shows "\<exists>us. xs = d @ e # us"
  using assms by (auto simp: append_eq_append_conv2 append_eq_Cons_conv)

lemma split_after:
  assumes "xs @ ys = d @ r" and "e \<in> set d" and "e \<notin> set xs"
  shows "\<exists>us. d = xs @ us"
  using assms by (auto simp: append_eq_append_conv2)

lemma closing_mem:
  "e \<in> set (closing ths) \<longleftrightarrow>
     (\<exists>i \<in> set ths. e = Thread_join i) \<or> e = Os_remove \<or> e = Print_removed \<or> e = Print_all_completed"
  by (auto simp: closing_def)

lemma shape_head:
  assumes "program_shape p (e # rest)"
  shows "e = Write_payload p"
  using assms by (auto simp: program_shape_def)

lemma shape_loop_part:
  assumes "program_shape p (done @ e # rest)" and "is_loop_event e \<or> is_write e"
  shows "\<exists>new us. list_all is_loop_event new \<and> distinct (starts new) \<and>
           Write_payload p # Print_payload_written # new = done @ e # us"
proof -
  from assms(1) obtain new tail where
    P0: "done @ e # rest = Write_payload p # Print_payload_written # new @ tail"
    and new: "list_all is_loop_event new" "distinct (starts new)"
    and tail: "tail = [] \<or> tail = closing (starts new)"
    unfolding program_shape_def by blast
  from P0 have P: "(Write_payload p # Print_payload_written # new) @ tail = done @ e # rest"
    by simp
  from tail assms(2) have "e \<notin> set tail" by (auto simp: closing_mem)
  from split_before [OF P this] new show ?thesis by blast
qed

lemma shape_write:
  assumes "program_shape p (done @ Write_payload q # rest)"
  shows "done = [] \<and> q = p"
proof -
  from shape_loop_part [OF assms] obtain new us where
    new: "list_all is_loop_event new"
    and eq: "Write_payload p # Print_payload_written # new = done @ Write_payload q # us"
    by auto
  show ?thesis
  proof (cases "done")
    case Nil
    with eq show ?thesis by simp
  next
    case (Cons d ds)
    with eq have "Write_payload q \<in> set (Print_payload_written # new)"
      by (metis append_Cons in_set_conv_decomp list.inject)
    with new show ?thesis by (auto simp: list_all_iff)
  qed
qed

lemma shape_start:
  assumes "program_shape p (done @ Thread_start i # rest)"
  shows "Thread_start i \<notin> set done \<and> Thread_join j \<notin> set done \<and> Os_remove \<notin> set done \<and> done \<noteq> []"
proof -
  from shape_loop_part [OF assms] obtain new us where
    new: "list_all is_loop_event new" "distinct (starts new)"
    and eq: "Write_payload p # Print_payload_written # new = done @ Thread_start i # us"
    by auto
  from eq have sub: "set done \<subseteq> insert (Write_payload p) (insert Print_payload_written (set new))"
    by (metis Un_iff list.simps(15) set_append subsetI)
  from eq have "starts new = starts done @ i # starts us"
    by (metis append_Nil concat.simps(2) list.simps(9) started.simps(1,2,3) starts_append starts_def append_Cons)
  with new(2) have "i \<notin> set (starts done)" by auto
  then have "Thread_start i \<notin> set done" by (simp add: starts_mem)
  moreover from new(1) have "Thread_join j \<notin> set new" "Os_remove \<notin> set new"
    by (auto simp: list_all_iff)
  with sub have "Thread_join j \<notin> set done" "Os_remove \<notin> set done"
    by blast+
  moreover from eq have "done \<noteq> []" by auto
  ultimately show ?thesis by blast
qed

lemma shape_remove:
  assumes "program_shape p (done @ todo)" and "Os_remove \<in> set done" and "Thread_start i \<in> set done"
  shows "Thread_join i \<in> set done"
proof -
  from assms(1) obtain new tail where
    P0: "done @ todo = Write_payload p # Print_payload_written # new @ tail"
    and new: "list_all is_loop_event new"
    and tail: "tail = [] \<or> tail = closing (starts new)"
    unfolding program_shape_def by blast
  from P0 have P: "Write_payload p # Print_payload_written # new @ tail = done @ todo"
    by simp
  let ?xs = "Write_payload p # Print_payload_written # new @ map Thread_join (starts new)"
  from new have notin: "Os_remove \<notin> set ?xs" by (auto simp: list_all_iff)
  from assms(2) P have "Os_remove \<in> set (Write_payload p # Print_payload_written # new @ tail)"
    by simp
  with new tail have t: "tail = closing (starts new)" by (auto simp: list_all_iff)
  with P have "?xs @ [Os_remove, Print_removed, Print_all_completed] = done @ todo"
    by (simp add: closing_def)
  from split_after [OF this assms(2) notin] obtain us where d: "done = ?xs @ us" ..
  from assms(3) P have "Thread_start i \<in> set (Write_payload p # Print_payload_written # new @ tail)"
    by (metis Un_iff set_append)
  with t have "Thread_start i \<in> set new" by (auto simp: closing_mem)
  then have "i \<in> set (starts new)" by (simp add: starts_mem)
  with d show ?thesis by simp
qed

section \<open>What every interleaving keeps true\<close>

lemma invariant_initial: "invariant p (events (fst (main_program a p))) (initial a p)"
  by (simp add: invariant_def initial_def outcomes_def)

lemma invariantI:
  assumes "main_done s @ main_todo s = P"
    and "payload_file s =
       (if main_done s \<noteq> [] \<and> Os_remove \<notin> set (main_done s) then Some p else None)"
    and "\<And>i. (worker s i = None) = (Thread_start i \<notin> set (main_done s))"
    and "\<And>i. Thread_join i \<in> set (main_done s) \<Longrightarrow> worker s i = Some Finished"
    and "\<And>r. r \<in> set (curl_reads s) \<Longrightarrow> snd r = Some p"
    and "distinct (map report_thread (outcomes (console s)))"
    and "set (map report_thread (outcomes (console s))) = {i. worker s i = Some Finished}"
    and "map fst (curl_reads s) = map report_thread (outcomes (console s))"
  shows "invariant p P s"
  using assms unfolding invariant_def by blast

lemma invariant_program: "invariant p P s \<Longrightarrow> main_done s @ main_todo s = P"
  by (simp add: invariant_def)

lemma invariant_payload:
  "invariant p P s \<Longrightarrow> payload_file s =
     (if main_done s \<noteq> [] \<and> Os_remove \<notin> set (main_done s) then Some p else None)"
  by (simp add: invariant_def)

lemma invariant_started:
  "invariant p P s \<Longrightarrow> (worker s i = None) = (Thread_start i \<notin> set (main_done s))"
  by (simp add: invariant_def)

lemma invariant_joined:
  "invariant p P s \<Longrightarrow> Thread_join i \<in> set (main_done s) \<Longrightarrow> worker s i = Some Finished"
  by (simp add: invariant_def)

lemma invariant_reads:
  "invariant p P s \<Longrightarrow> r \<in> set (curl_reads s) \<Longrightarrow> snd r = Some p"
  by (simp add: invariant_def)

lemma invariant_distinct:
  "invariant p P s \<Longrightarrow> distinct (map report_thread (outcomes (console s)))"
  by (simp add: invariant_def)

lemma invariant_finished:
  "invariant p P s \<Longrightarrow>
     set (map report_thread (outcomes (console s))) = {i. worker s i = Some Finished}"
  by (simp add: invariant_def)

lemma invariant_readers:
  "invariant p P s \<Longrightarrow> map fst (curl_reads s) = map report_thread (outcomes (console s))"
  by (simp add: invariant_def)

lemma main_effect_fields:
  "main_todo (main_effect e s) = main_todo s"
  "main_done (main_effect e s) = main_done s"
  "console (main_effect e s) = console s"
  "curl_reads (main_effect e s) = curl_reads s"
  by (cases e; simp)+

lemma main_effect_worker:
  "worker (main_effect e s) =
     (case e of Thread_start i \<Rightarrow> (worker s)(i := Some Running) | _ \<Rightarrow> worker s)"
  by (cases e) simp_all

lemma main_effect_payload:
  "payload_file (main_effect e s) =
     (case e of Write_payload q \<Rightarrow> Some q | Os_remove \<Rightarrow> None | _ \<Rightarrow> payload_file s)"
  by (cases e) simp_all

lemma main_step_invariant:
  assumes shape: "program_shape p P" and inv: "invariant p P s"
    and todo: "main_todo s = e # rest" and free: "\<not> blocked e s"
  shows "invariant p P (main_effect e (s\<lparr>main_todo := rest, main_done := main_done s @ [e]\<rparr>))"
    (is "invariant p P ?t")
proof (rule invariantI)
  from invariant_program [OF inv] todo have P: "P = main_done s @ e # rest" by simp
  with shape have sh: "program_shape p (main_done s @ e # rest)" by simp
  have first: "e = Write_payload p" if "main_done s = []"
    using sh that shape_head by auto
  show "main_done ?t @ main_todo ?t = P"
    by (simp add: main_effect_fields P)
  show "payload_file ?t =
      (if main_done ?t \<noteq> [] \<and> Os_remove \<notin> set (main_done ?t) then Some p else None)"
  proof (cases e)
    case (Write_payload q)
    with sh have "q = p" "main_done s = []" using shape_write by blast+
    with Write_payload show ?thesis by (simp add: main_effect_fields)
  next
    case Os_remove
    then show ?thesis by (simp add: main_effect_fields)
  qed (use first invariant_payload [OF inv] in
      \<open>auto simp: main_effect_fields main_effect_payload\<close>)
  show "(worker ?t i = None) = (Thread_start i \<notin> set (main_done ?t))" for i
    using invariant_started [OF inv, of i]
    by (cases e) (auto simp: main_effect_fields invariant_started [OF inv])
  show "worker ?t i = Some Finished" if "Thread_join i \<in> set (main_done ?t)" for i
  proof (cases e)
    case (Thread_start j)
    with sh have "Thread_join i \<notin> set (main_done s)" using shape_start by blast
    with that Thread_start show ?thesis by (simp add: main_effect_fields)
  next
    case (Thread_join j)
    with that free invariant_joined [OF inv, of i] show ?thesis
      by (auto simp: main_effect_fields)
  qed (use that invariant_joined [OF inv, of i] in \<open>auto simp: main_effect_fields\<close>)
  show "snd r = Some p" if "r \<in> set (curl_reads ?t)" for r
    using that invariant_reads [OF inv] by (simp add: main_effect_fields)
  show "distinct (map report_thread (outcomes (console ?t)))"
    using invariant_distinct [OF inv] by (simp add: main_effect_fields)
  show "set (map report_thread (outcomes (console ?t))) = {i. worker ?t i = Some Finished}"
  proof (cases e)
    case (Thread_start j)
    with sh have "Thread_start j \<notin> set (main_done s)" using shape_start by blast
    with invariant_started [OF inv, of j] have "worker s j = None" by simp
    then have "{i. ((worker s)(j := Some Running)) i = Some Finished} =
        {i. worker s i = Some Finished}"
      by auto
    with Thread_start invariant_finished [OF inv] show ?thesis
      by (simp add: main_effect_fields)
  qed (use invariant_finished [OF inv] in \<open>simp_all add: main_effect_fields\<close>)
  show "map fst (curl_reads ?t) = map report_thread (outcomes (console ?t))"
    using invariant_readers [OF inv] by (simp add: main_effect_fields)
qed

lemma worker_step_invariant:
  assumes shape: "program_shape p P" and inv: "invariant p P s"
    and run: "worker s i = Some Running"
  shows "invariant p P
     (s\<lparr>worker := (worker s)(i := Some Finished),
        console := console s @ fst (make_request (curl i (payload_file s)) loads dumps i),
        curl_reads := curl_reads s @ [(i, payload_file s)]\<rparr>)"
    (is "invariant p P ?t")
proof (rule invariantI)
  from invariant_program [OF inv] shape
  have sh: "program_shape p (main_done s @ main_todo s)" by simp
  from invariant_started [OF inv, of i] run
  have started: "Thread_start i \<in> set (main_done s)" by simp
  have "Os_remove \<notin> set (main_done s)"
  proof
    assume "Os_remove \<in> set (main_done s)"
    from invariant_joined [OF inv shape_remove [OF sh this started]] run
    show False by simp
  qed
  with started invariant_payload [OF inv] have present: "payload_file s = Some p"
    by auto
  obtain x where x: "outcomes (fst (make_request (curl i (payload_file s)) loads dumps i)) = [x]"
      "report_thread x = i"
    using make_request_one_outcome by blast
  then have out: "outcomes (console ?t) = outcomes (console s) @ [x]"
    by (simp add: outcomes_def)
  from invariant_finished [OF inv] run
  have fresh: "i \<notin> set (map report_thread (outcomes (console s)))" by simp
  show "main_done ?t @ main_todo ?t = P"
    using invariant_program [OF inv] by simp
  show "payload_file ?t =
      (if main_done ?t \<noteq> [] \<and> Os_remove \<notin> set (main_done ?t) then Some p else None)"
    using invariant_payload [OF inv] by simp
  show "(worker ?t j = None) = (Thread_start j \<notin> set (main_done ?t))" for j
    using invariant_started [OF inv, of j] started by simp
  show "worker ?t j = Some Finished" if "Thread_join j \<in> set (main_done ?t)" for j
    using that invariant_joined [OF inv, of j] by simp
  show "snd r = Some p" if "r \<in> set (curl_reads ?t)" for r
    using that invariant_reads [OF inv, of r] present by auto
  show "distinct (map report_thread (outcomes (console ?t)))"
    using invariant_distinct [OF inv] fresh x(2) unfolding out by simp
  have "{j. worker ?t j = Some Finished} = insert i {j. worker s j = Some Finished}"
    by auto
  then show "set (map report_thread (outcomes (console ?t))) = {j. worker ?t j = Some Finished}"
    using invariant_finished [OF inv] x(2) unfolding out by simp
  show "map fst (curl_reads ?t) = map report_thread (outcomes (console ?t))"
    using invariant_readers [OF inv] x(2) unfolding out by simp
qed

lemma step_invariant:
  assumes "program_shape p P" and "invariant p P s" and "step curl loads dumps c s = Some s'"
  shows "invariant p P s'"
proof (cases c)
  case Main_thread
  with assms(3) obtain e rest where "main_todo s = e # rest" "\<not> blocked e s"
    "s' = main_effect e (s\<lparr>main_todo := rest, main_done := main_done s @ [e]\<rparr>)"
    by (auto simp: step_def split: list.splits if_splits)
  with assms(1,2) show ?thesis using main_step_invariant by blast
next
  case (Worker_thread i)
  with assms(3) have "worker s i = Some Running"
    "s' = s\<lparr>worker := (worker s)(i := Some Finished),
        console := console s @ fst (make_request (curl i (payload_file s)) loads dumps i),
        curl_reads := curl_reads s @ [(i, payload_file s)]\<rparr>"
    by (auto simp: step_def split: option.splits phase.splits)
  with assms(1,2) show ?thesis using worker_step_invariant by blast
qed

lemma run_invariant:
  assumes "program_shape p P"
  shows "invariant p P s \<Longrightarrow> run_schedule curl loads dumps cs s = Some s' \<Longrightarrow> invariant p P s'"
proof (induction cs arbitrary: s)
  case Nil
  then show ?case by simp
next
  case (Cons c cs)
  from Cons.prems(2) obtain t where t: "step curl loads dumps c s = Some t"
    "run_schedule curl loads dumps cs t = Some s'"
    by (auto split: option.splits)
  from step_invariant [OF assms Cons.prems(1) t(1)] have "invariant p P t" .
  from Cons.IH [OF this t(2)] show ?case .
qed

lemma reachable_invariant:
  assumes "run_schedule curl loads dumps cs (initial a p) = Some s"
  shows "invariant p (events (fst (main_program a p))) s"
  using run_invariant [OF program_has_shape invariant_initial assms] .

section \<open>Runs come to an end\<close>








section \<open>Outcomes, the payload and its removal\<close>

text \<open>
  A run to the end, used by the witnesses below: two threads in one batch; worker 0,
  whose \<open>subprocess.run\<close> raises, runs right after its start, worker 1 at the end of
  the loop.
\<close>

lemma example_program:
  "events (fst (main_program \<lparr>threads = 2, delay = 1, batch_delay = 5, batch_size = 2\<rparr> p)) =
     [Write_payload p, Print_payload_written,
      Print_creating_thread 0, Thread_start 0, Print_sleeping 1, Launch_sleep 1,
      Print_creating_thread 1, Thread_start 1, Print_batch_limit 5, Batch_sleep 5,
      Print_sleeping 1, Launch_sleep 1,
      Thread_join 0, Thread_join 1, Os_remove, Print_removed, Print_all_completed]"
  by (simp add: main_program_def threading_logic_def iteration_def emit_def thread_start_def
      batch_check_def time_sleep_def raise_error_def main_start_def join_all_def upto_rec1)

lemma example_normal:
  "snd (main_program \<lparr>threads = 2, delay = 1, batch_delay = 5, batch_size = 2\<rparr> p) = None"
  by (simp add: main_program_def threading_logic_def iteration_def emit_def thread_start_def
      batch_check_def time_sleep_def raise_error_def main_start_def join_all_def upto_rec1)

lemma example_run:
  "\<exists>s. run_schedule
         (\<lambda>i f. if i = 0 then Inl [101]
                else Inr \<lparr>returncode = 0, stdout = (case f of None \<Rightarrow> [] | Some b \<Rightarrow> b),
                         stderr = []\<rparr>)
         (\<lambda>body. Some body) (\<lambda>data. data)
         [Main_thread, Main_thread, Main_thread, Main_thread, Worker_thread 0,
          Main_thread, Main_thread, Main_thread, Main_thread,
          Main_thread, Main_thread, Main_thread, Main_thread, Worker_thread 1,
          Main_thread, Main_thread, Main_thread, Main_thread, Main_thread]
         (initial \<lparr>threads = 2, delay = 1, batch_delay = 5, batch_size = 2\<rparr> [7, 8, 9]) = Some s \<and>
       main_todo s = [] \<and>
       console s = [Starting_request 0, Exception_caught 0 [101],
                    Starting_request 1, Success_partial_json 1 [7, 8, 9]] \<and>
       curl_reads s = [(0, Some [7, 8, 9]), (1, Some [7, 8, 9])] \<and>
       worker s 0 = Some Finished \<and> worker s 1 = Some Finished \<and>
       payload_file s = None"
  by (simp add: initial_def example_program step_def make_request_raises make_request_returns)








text \<open>
  C6. Whatever the arguments and the interleaving: while the payload file does not
  exist, no worker is running (so none can read it); once \<open>os.remove\<close> has run, every
  thread that was started has been joined and has finished, and no thread is started
  later; and when the script raises nothing, the file is removed by the time the main
  thread is through.
\<close>

theorem payload_released_after_workers:
  assumes "run_schedule curl loads dumps cs (initial a p) = Some s"
  shows "(payload_file s = None \<longrightarrow> (\<forall>i. worker s i \<noteq> Some Running)) \<and>
         (Os_remove \<in> set (main_done s) \<longrightarrow>
            (\<forall>i. Thread_start i \<in> set (main_done s) \<longrightarrow>
                 Thread_join i \<in> set (main_done s) \<and> worker s i = Some Finished) \<and>
            (\<forall>i. Thread_start i \<notin> set (main_todo s))) \<and>
         (snd (main_program a p) = None \<and> main_todo s = [] \<longrightarrow>
            Os_remove \<in> set (main_done s) \<and> payload_file s = None)"
proof -
  let ?P = "events (fst (main_program a p))"
  from reachable_invariant [OF assms] have inv: "invariant p ?P s" .
  from invariant_program [OF inv] program_has_shape [of p a]
  have sh: "program_shape p (main_done s @ main_todo s)" by simp
  have joined: "Thread_join i \<in> set (main_done s) \<and> worker s i = Some Finished"
    if "Os_remove \<in> set (main_done s)" "Thread_start i \<in> set (main_done s)" for i
    using shape_remove [OF sh that] invariant_joined [OF inv] by blast
  have no_start: "Thread_start i \<notin> set (main_todo s)" if "Os_remove \<in> set (main_done s)" for i
  proof
    assume "Thread_start i \<in> set (main_todo s)"
    then obtain xs ys where "main_todo s = xs @ Thread_start i # ys"
      by (auto simp: in_set_conv_decomp)
    with sh have "program_shape p ((main_done s @ xs) @ Thread_start i # ys)" by simp
    from shape_start [OF this] that show False by simp
  qed
  have absent: "worker s i \<noteq> Some Running" if "payload_file s = None" for i
  proof
    assume run: "worker s i = Some Running"
    with invariant_started [OF inv, of i] have st: "Thread_start i \<in> set (main_done s)"
      by simp
    with that invariant_payload [OF inv] have "Os_remove \<in> set (main_done s)"
      by (auto split: if_splits)
    from joined [OF this st] run show False by simp
  qed
  have complete: "Os_remove \<in> set (main_done s) \<and> payload_file s = None"
    if "snd (main_program a p) = None" "main_todo s = []"
  proof -
    from normal_completion_events [OF that(1)] have "Os_remove \<in> set ?P"
      by (auto simp: closing_mem)
    with invariant_program [OF inv] that(2) have "Os_remove \<in> set (main_done s)" by simp
    with invariant_payload [OF inv] show ?thesis by simp
  qed
  from joined no_start absent complete show ?thesis by blast
qed

theorem payload_released_after_workers_witness:
  "\<exists>s. run_schedule
         (\<lambda>i f. if i = 0 then Inl [101]
                else Inr \<lparr>returncode = 0, stdout = (case f of None \<Rightarrow> [] | Some b \<Rightarrow> b),
                         stderr = []\<rparr>)
         (\<lambda>body. Some body) (\<lambda>data. data)
         [Main_thread, Main_thread, Main_thread, Main_thread, Worker_thread 0,
          Main_thread, Main_thread, Main_thread, Main_thread,
          Main_thread, Main_thread, Main_thread, Main_thread, Worker_thread 1,
          Main_thread, Main_thread, Main_thread, Main_thread, Main_thread]
         (initial \<lparr>threads = 2, delay = 1, batch_delay = 5, batch_size = 2\<rparr> [7, 8, 9]) = Some s \<and>
       snd (main_program \<lparr>threads = 2, delay = 1, batch_delay = 5, batch_size = 2\<rparr> [7, 8, 9]) =
         None \<and>
       main_todo s = [] \<and> Os_remove \<in> set (main_done s) \<and> payload_file s = None \<and>
       worker s 0 = Some Finished \<and> worker s 1 = Some Finished"
proof -
  from example_run obtain s where
    run: "run_schedule
         (\<lambda>i f. if i = 0 then Inl [101]
                else Inr \<lparr>returncode = 0, stdout = (case f of None \<Rightarrow> [] | Some b \<Rightarrow> b),
                         stderr = []\<rparr>)
         (\<lambda>body. Some body) (\<lambda>data. data)
         [Main_thread, Main_thread, Main_thread, Main_thread, Worker_thread 0,
          Main_thread, Main_thread, Main_thread, Main_thread,
          Main_thread, Main_thread, Main_thread, Main_thread, Worker_thread 1,
          Main_thread, Main_thread, Main_thread, Main_thread, Main_thread]
         (initial \<lparr>threads = 2, delay = 1, batch_delay = 5, batch_size = 2\<rparr> [7, 8, 9]) = Some s"
    and fin: "main_todo s = []"
    and workers: "worker s 0 = Some Finished" "worker s 1 = Some Finished"
    by blast
  from payload_released_after_workers [OF run] example_normal [of "[7, 8, 9]"] fin
  have "Os_remove \<in> set (main_done s) \<and> payload_file s = None" by blast
  with run fin workers example_normal [of "[7, 8, 9]"] show ?thesis by blast
qed

end
